theory Spec2Isabelle
  imports Main
begin

section \<open>Text\<close>

text \<open>
  A JavaScript string is a sequence of code units. This development covers the
  code units U+0000 to U+00FF: a code unit is a \<^typ>\<open>char\<close> and a string a
  \<^typ>\<open>string\<close>. On that range the whitespace that \<^verbatim>\<open>String.prototype.trim\<close>
  removes is TAB, LF, VT, FF, CR, SPACE and NBSP, and \<^verbatim>\<open>toLowerCase\<close> adds
  0x20 to A-Z and to U+00C0 .. U+00DE except U+00D7; both stay inside the range.
\<close>

abbreviation dquote :: char where
  "dquote \<equiv> CHR 0x22"

abbreviation comma :: char where
  "comma \<equiv> CHR 0x2C"

abbreviation LF :: char where
  "LF \<equiv> CHR 0x0A"

abbreviation CR :: char where
  "CR \<equiv> CHR 0x0D"

definition is_white :: "char \<Rightarrow> bool" where
  "is_white c \<longleftrightarrow>
     c = CHR 0x09 \<or> c = CHR 0x0A \<or> c = CHR 0x0B \<or> c = CHR 0x0C \<or> c = CHR 0x0D \<or>
     c = CHR 0x20 \<or> c = CHR 0xA0"

definition trim :: "string \<Rightarrow> string" where
  "trim s = rev (dropWhile is_white (rev (dropWhile is_white s)))"

definition lower_char :: "char \<Rightarrow> char" where
  "lower_char c =
     (let n = (of_char c :: nat)
      in if (65 \<le> n \<and> n \<le> 90) \<or> (192 \<le> n \<and> n \<le> 222 \<and> n \<noteq> 215)
         then char_of (n + 32) else c)"

definition toLowerCase :: "string \<Rightarrow> string" where
  "toLowerCase s = map lower_char s"

text \<open>\<^verbatim>\<open>Array.prototype.join\<close> on an array of strings.\<close>

fun join :: "string \<Rightarrow> string list \<Rightarrow> string" where
  "join sep [] = []"
| "join sep [x] = x"
| "join sep (x # y # ys) = x @ sep @ join sep (y # ys)"

text \<open>
  \<^verbatim>\<open>s.split(/\r?\n/)\<close>: the pattern is tried at each position from left to right, so a
  CR directly before an LF is part of the separator and any other CR stays in its piece.
  The pattern matches no empty text, so the empty string splits into one empty piece.
\<close>

fun split_lines :: "string \<Rightarrow> string list" where
  "split_lines [] = [[]]"
| "split_lines (c # cs) =
     (if c = CR \<and> cs \<noteq> [] \<and> hd cs = LF then [] # split_lines (tl cs)
      else if c = LF then [] # split_lines cs
      else (case split_lines cs of [] \<Rightarrow> [[c]] | l # ls \<Rightarrow> (c # l) # ls))"

section \<open>Entries\<close>

text \<open>
  A word entry as the CSV functions see it. The \<^verbatim>\<open>id\<close> and \<^verbatim>\<open>createdAt\<close> fields
  that \<^verbatim>\<open>csvToWords\<close> adds come from \<^verbatim>\<open>crypto.randomUUID()\<close> and the clock; they
  are no function of the CSV text and are left out.
\<close>

record entry =
  word :: string
  "definition" :: string

section \<open>Encoding\<close>

text \<open>\<^verbatim>\<open>field.replace(/"/g, '""')\<close>\<close>

fun replace_quotes :: "string \<Rightarrow> string" where
  "replace_quotes [] = []"
| "replace_quotes (c # cs) =
     (if c = dquote then dquote # dquote # replace_quotes cs else c # replace_quotes cs)"

text \<open>
  \<^verbatim>\<open>escapeCsvField\<close>. The argument is \<open>None\<close> for \<^verbatim>\<open>null\<close> and \<^verbatim>\<open>undefined\<close>.
\<close>

definition escapeCsvField :: "string option \<Rightarrow> string" where
  "escapeCsvField arg =
     (let field = (case arg of None \<Rightarrow> [] | Some s \<Rightarrow> s);
          needsQuotes = (comma \<in> set field \<or> dquote \<in> set field \<or>
                         LF \<in> set field \<or> CR \<in> set field);
          escapedField = replace_quotes field
      in if needsQuotes then [dquote] @ escapedField @ [dquote] else escapedField)"

text \<open>
  \<^verbatim>\<open>wordsToCsv\<close>. The entries hold a text in both fields, so the escaper is applied to
  \<open>Some\<close> of each.
\<close>

definition wordsToCsv :: "entry list \<Rightarrow> string" where
  "wordsToCsv wordsArray =
     (let header = ''word,definition'';
          lines = map (\<lambda>entry. escapeCsvField (Some (word entry)) @ [comma] @
                                escapeCsvField (Some (definition entry))) wordsArray
      in join [LF] (header # lines))"

section \<open>Decoding\<close>

text \<open>
  The scanning loop of \<^verbatim>\<open>parseTwoFieldCsvLine\<close>: \<open>i\<close> is the loop index, and
  \<open>flds\<close> (the array \<^verbatim>\<open>fields\<close>), \<open>currentField\<close> and \<open>inQuote\<close> are the loop's
  variables. \<^verbatim>\<open>nextChar\<close> is \<^verbatim>\<open>undefined\<close> at the last index, where it equals no
  character. The result is the array after the push that follows the loop.
\<close>

function scan_loop :: "string \<Rightarrow> nat \<Rightarrow> string list \<Rightarrow> string \<Rightarrow> bool \<Rightarrow> string list" where
  "scan_loop trimmedLine i flds currentField inQuote =
     (if i < length trimmedLine then
        (if trimmedLine ! i = dquote then
           (if inQuote \<and> i + 1 < length trimmedLine \<and> trimmedLine ! (i + 1) = dquote
            then scan_loop trimmedLine (i + 2) flds (currentField @ [dquote]) inQuote
            else scan_loop trimmedLine (i + 1) flds currentField (\<not> inQuote))
         else if trimmedLine ! i = comma \<and> \<not> inQuote
           then scan_loop trimmedLine (i + 1) (flds @ [currentField]) [] inQuote
         else scan_loop trimmedLine (i + 1) flds (currentField @ [trimmedLine ! i]) inQuote)
      else flds @ [currentField])"
  by pat_completeness auto
termination
  by (relation "measure (\<lambda>(s, i, flds, cur, q). length s - i)") auto

declare scan_loop.simps [simp del]

text \<open>\<^verbatim>\<open>f.replace(/""/g, '"')\<close>: non-overlapping matches, from left to right.\<close>

fun unescape_quotes :: "string \<Rightarrow> string" where
  "unescape_quotes (a # b # cs) =
     (if a = dquote \<and> b = dquote then dquote # unescape_quotes cs
      else a # unescape_quotes (b # cs))"
| "unescape_quotes cs = cs"

text \<open>
  \<^verbatim>\<open>fields[k] ? fields[k].replace(/""/g, '"').trim() : ''\<close>: a missing field and the
  empty string are both falsy.
\<close>

definition field_text :: "string list \<Rightarrow> nat \<Rightarrow> string" where
  "field_text flds k =
     (if k < length flds \<and> flds ! k \<noteq> [] then trim (unescape_quotes (flds ! k)) else [])"

definition parseTwoFieldCsvLine :: "string \<Rightarrow> entry option" where
  "parseTwoFieldCsvLine line =
     (let trimmedLine = trim line
      in if length trimmedLine = 0 then None
         else
           (let flds = scan_loop trimmedLine 0 [] [] False;
                parsedWord = field_text flds 0;
                parsedDefinition = field_text flds 1
            in Some \<lparr>word = parsedWord, definition = parsedDefinition\<rparr>))"

text \<open>
  \<^verbatim>\<open>csvToWords\<close>. A line whose parse is \<^verbatim>\<open>null\<close> is mapped to \<^verbatim>\<open>null\<close> and removed by
  \<^verbatim>\<open>filter(Boolean)\<close>.
\<close>

definition csvToWords :: "string \<Rightarrow> entry list" where
  "csvToWords csvString =
     (let lines = filter (\<lambda>line. trim line \<noteq> []) (split_lines csvString);
          lines' = (if length lines > 0 \<and> trim (toLowerCase (hd lines)) = ''word,definition''
                    then tl lines else lines)
      in List.map_filter parseTwoFieldCsvLine lines')"

section \<open>The tokenizer as the specification words it\<close>

text \<open>
  The line tokenizer written from the specification's description rather than from the
  loop: the quoted-region state, the field being accumulated and the characters still to
  read. A double-quote followed by a double-quote inside a quoted region appends one
  double-quote and consumes both; any other double-quote toggles the state; a comma
  outside a quoted region ends the field; every other character is appended; at the end
  of the line the accumulated field is the last field. It is compared with
  \<open>scan_loop\<close> below.
\<close>

fun tokenize_spec :: "bool \<Rightarrow> string \<Rightarrow> string \<Rightarrow> string list" where
  "tokenize_spec inside field [] = [field]"
| "tokenize_spec inside field [c] =
     (if c = dquote then tokenize_spec (\<not> inside) field []
      else if c = comma \<and> \<not> inside then field # tokenize_spec inside [] []
      else tokenize_spec inside (field @ [c]) [])"
| "tokenize_spec inside field (c # d # rest) =
     (if c = dquote \<and> d = dquote \<and> inside then tokenize_spec inside (field @ [dquote]) rest
      else if c = dquote then tokenize_spec (\<not> inside) field (d # rest)
      else if c = comma \<and> \<not> inside then field # tokenize_spec inside [] (d # rest)
      else tokenize_spec inside (field @ [c]) (d # rest))"

section \<open>Notions used in the statements and proofs\<close>

text \<open>
  Splitting at LF alone, and removing one CR from the end of a piece: together they
  describe \<open>split_lines\<close>. \<open>decode_lines\<close> is \<^verbatim>\<open>csvToWords\<close> after the split.
\<close>

fun lf_pieces :: "string \<Rightarrow> string list" where
  "lf_pieces [] = [[]]"
| "lf_pieces (c # cs) =
     (if c = LF then [] # lf_pieces cs
      else (case lf_pieces cs of [] \<Rightarrow> [[c]] | l # ls \<Rightarrow> (c # l) # ls))"

definition chop_cr :: "string \<Rightarrow> string" where
  "chop_cr p = (if p \<noteq> [] \<and> last p = CR then butlast p else p)"

definition decode_lines :: "string list \<Rightarrow> entry list" where
  "decode_lines ls =
     (let lines = filter (\<lambda>line. trim line \<noteq> []) ls;
          lines' = (if length lines > 0 \<and> trim (toLowerCase (hd lines)) = ''word,definition''
                    then tl lines else lines)
      in List.map_filter parseTwoFieldCsvLine lines')"

text \<open>
  Two double-quotes in a row somewhere in a text, and whitespace at either end of it.
\<close>

fun quote_pair :: "string \<Rightarrow> bool" where
  "quote_pair (a # b # cs) = ((a = dquote \<and> b = dquote) \<or> quote_pair (b # cs))"
| "quote_pair cs = False"

definition surrounding_white :: "string \<Rightarrow> bool" where
  "surrounding_white f = (f \<noteq> [] \<and> (is_white (hd f) \<or> is_white (last f)))"

text \<open>
  The texts that survive encoding and decoding as the code stands: no line feed, no
  whitespace at either end and no two double-quotes in a row.
\<close>

definition plain_field :: "string \<Rightarrow> bool" where
  "plain_field f \<longleftrightarrow> LF \<notin> set f \<and> \<not> surrounding_white f \<and> \<not> quote_pair f"

section \<open>The encoder\<close>

lemma replace_quotes_concat:
  "replace_quotes s = concat (map (\<lambda>c. if c = dquote then [dquote, dquote] else [c]) s)"
  by (induction s) simp_all

lemma replace_quotes_id: "dquote \<notin> set s \<Longrightarrow> replace_quotes s = s"
  by (induction s) auto

text \<open>
  Claim C2. The field escaper is defined on every text (absent or null input counts as
  the empty text). Exactly when the text contains a comma, a double-quote, a line feed or
  a carriage return, the result is the text with every double-quote doubled, wrapped in
  double-quotes; otherwise the result is the text unchanged.
\<close>
theorem escapeCsvField_spec:
  "escapeCsvField arg =
     (let s = (case arg of None \<Rightarrow> [] | Some t \<Rightarrow> t)
      in if comma \<in> set s \<or> dquote \<in> set s \<or> LF \<in> set s \<or> CR \<in> set s
         then [dquote] @ concat (map (\<lambda>c. if c = dquote then [dquote, dquote] else [c]) s) @ [dquote]
         else s)"
  by (simp add: escapeCsvField_def Let_def replace_quotes_concat [symmetric] replace_quotes_id)

lemma join_LF_Cons: "join [LF] (x # xs) = x @ concat (map (\<lambda>l. LF # l) xs)"
  by (induction xs arbitrary: x) simp_all

text \<open>
  Claim C3. The encoder emits the header line \<^verbatim>\<open>word,definition\<close> and then, for each
  record in input order, a newline followed by escaped(word), a comma and
  escaped(definition): the lines are joined by single newlines and nothing follows the
  last one. For the empty sequence the result is the header line alone.
\<close>
theorem wordsToCsv_spec:
  "wordsToCsv [] = ''word,definition'' \<and>
   wordsToCsv rs = ''word,definition'' @
      concat (map (\<lambda>e. [LF] @ escapeCsvField (Some (word e)) @ '','' @
                         escapeCsvField (Some (definition e))) rs)"
  by (simp add: wordsToCsv_def join_LF_Cons comp_def)

section \<open>Trimming\<close>

lemma trim_Nil: "trim [] = []"
  by (simp add: trim_def)

lemma trim_eq_Nil_iff: "(trim s = []) = (\<forall>c\<in>set s. is_white c)"
proof
  assume "trim s = []"
  then have a: "\<forall>c\<in>set (dropWhile is_white s). is_white c"
    by (simp add: trim_def dropWhile_eq_Nil_conv)
  have "dropWhile is_white s = []"
  proof (rule ccontr)
    assume n: "dropWhile is_white s \<noteq> []"
    then have "\<not> is_white (hd (dropWhile is_white s))" by (rule hd_dropWhile)
    moreover have "hd (dropWhile is_white s) \<in> set (dropWhile is_white s)" using n by simp
    ultimately show False using a by blast
  qed
  then show "\<forall>c\<in>set s. is_white c" by (simp add: dropWhile_eq_Nil_conv)
next
  assume "\<forall>c\<in>set s. is_white c"
  then have d: "dropWhile is_white s = []" by (simp add: dropWhile_eq_Nil_conv)
  show "trim s = []" unfolding trim_def d by simp
qed

lemma dropWhile_hd_id: "xs \<noteq> [] \<Longrightarrow> \<not> P (hd xs) \<Longrightarrow> dropWhile P xs = xs"
  by (cases xs) simp_all

lemma trim_fixed: "s \<noteq> [] \<Longrightarrow> \<not> is_white (hd s) \<Longrightarrow> \<not> is_white (last s) \<Longrightarrow> trim s = s"
  by (simp add: trim_def dropWhile_hd_id hd_rev)

lemma trim_ends:
  assumes "trim s \<noteq> []"
  shows "\<not> is_white (hd (trim s)) \<and> \<not> is_white (last (trim s))"
proof -
  let ?t = "dropWhile is_white s"
  let ?u = "dropWhile is_white (rev ?t)"
  have u: "?u \<noteq> []" using assms by (simp add: trim_def)
  then have hu: "\<not> is_white (hd ?u)" by (rule hd_dropWhile)
  have l: "last (trim s) = hd ?u" using u by (simp add: trim_def last_rev)
  have "?t = rev (takeWhile is_white (rev ?t) @ ?u)"
    by (simp only: takeWhile_dropWhile_id rev_rev_ident)
  then have t: "?t = trim s @ rev (takeWhile is_white (rev ?t))"
    by (simp only: rev_append trim_def)
  have tn: "?t \<noteq> []" using t assms by (metis Nil_is_append_conv)
  then have "\<not> is_white (hd ?t)" by (rule hd_dropWhile)
  moreover have "hd ?t = hd (trim s)" using t assms by (metis hd_append2)
  ultimately show ?thesis using hu l by simp
qed

lemma trim_idem: "trim (trim s) = trim s"
proof (cases "trim s = []")
  case True
  then show ?thesis by (simp add: trim_Nil)
next
  case False
  then show ?thesis using trim_ends [OF False] by (simp add: trim_fixed)
qed

lemma trim_snoc_white: "is_white c \<Longrightarrow> trim (s @ [c]) = trim s"
proof (cases "\<forall>x\<in>set s. is_white x")
  case True
  assume "is_white c"
  then have "trim (s @ [c]) = []" using True by (simp add: trim_eq_Nil_iff)
  moreover have "trim s = []" using True by (simp add: trim_eq_Nil_iff)
  ultimately show ?thesis by simp
next
  case False
  assume c: "is_white c"
  from False obtain x where "x \<in> set s" "\<not> is_white x" by blast
  then have "dropWhile is_white (s @ [c]) = dropWhile is_white s @ [c]"
    by (rule dropWhile_append1)
  then show ?thesis using c by (simp add: trim_def)
qed

lemma is_white_code: "is_white c = ((of_char c :: nat) \<in> {9, 10, 11, 12, 13, 32, 160})"
proof -
  have e: "\<And>d. (c = d) = ((of_char c :: nat) = of_char d)" by simp
  show ?thesis unfolding is_white_def by (simp add: e)
qed

lemma is_white_lower_char: "is_white (lower_char c) = is_white c"
proof -
  have "(of_char c :: nat) < 256" by simp
  then show ?thesis
    unfolding is_white_code lower_char_def Let_def by (auto simp: ) 
qed

lemma trim_toLowerCase: "trim (toLowerCase s) = toLowerCase (trim s)"
proof -
  have c: "is_white \<circ> lower_char = is_white" by (rule ext) (simp add: is_white_lower_char)
  show ?thesis
    by (simp add: trim_def toLowerCase_def dropWhile_map rev_map c)
qed

section \<open>The scanning loop\<close>

lemma scan_loop_tokenize:
  "scan_loop s i fs cur q = fs @ tokenize_spec q cur (drop i s)"
proof (induction s i fs cur q rule: scan_loop.induct)
  case (1 s i fs cur q)
  show ?case
  proof (cases "i < length s")
    case False
    then show ?thesis by (simp add: scan_loop.simps [of s i])
  next
    case True
    note i = True
    then have d1: "drop i s = s ! i # drop (Suc i) s" by (simp add: Cons_nth_drop_Suc)
    show ?thesis
    proof (cases "Suc i < length s")
      case False
      then have d2: "drop (Suc i) s = []" by simp
      show ?thesis using i False "1.IH"(2-4)
        by (subst scan_loop.simps) (simp add: d1 d2 del: Cons_nth_drop_Suc)
    next
      case True
      then have d2: "drop (Suc i) s = s ! Suc i # drop (Suc (Suc i)) s"
        by (simp add: Cons_nth_drop_Suc)
      show ?thesis using i True "1.IH"
        by (subst scan_loop.simps) (simp add: d1 d2 del: Cons_nth_drop_Suc)
    qed
  qed
qed

text \<open>
  Claim C4. Scanning a line from the left with the in-quote flag initially false, the loop
  of the line tokenizer computes the fields of \<open>tokenize_spec\<close>: a double-quote
  directly followed by a double-quote inside a quoted region is one literal double-quote
  (both characters consumed, flag unchanged), any other double-quote toggles the flag, a
  comma ends the current field only outside a quoted region, every other character is
  appended whatever the quote state, and the accumulated field is the last field.
\<close>
theorem tokenizer_refines_spec:
  "scan_loop line 0 [] [] False = tokenize_spec False [] line"
  by (simp add: scan_loop_tokenize)

section \<open>Lines\<close>

lemma csvToWords_decode_lines: "csvToWords s = decode_lines (split_lines s)"
  by (simp add: csvToWords_def decode_lines_def)

lemma lf_pieces_not_Nil: "lf_pieces s \<noteq> []"
  by (induction s) (auto split: list.splits)

lemma lf_pieces_hd_Nil: "lf_pieces cs = [] # ps \<Longrightarrow> ps \<noteq> [] \<Longrightarrow> cs \<noteq> [] \<and> hd cs = LF"
  by (cases cs) (auto split: if_splits list.splits)

lemma chop_cr_Cons: "p \<noteq> [] \<Longrightarrow> chop_cr (c # p) = c # chop_cr p"
  by (simp add: chop_cr_def)

lemma split_lines_lf_pieces:
  "split_lines s = map chop_cr (butlast (lf_pieces s)) @ [last (lf_pieces s)]"
proof (induction s rule: split_lines.induct)
  case 1
  show ?case by simp
next
  case (2 c cs)
  show ?case
  proof (cases "c = CR \<and> cs \<noteq> [] \<and> hd cs = LF")
    case True
    then obtain r where cs: "cs = LF # r" by (cases cs) auto
    show ?thesis using True 2(1) cs
      by (simp add: lf_pieces_not_Nil chop_cr_def)
  next
    case F1: False
    show ?thesis
    proof (cases "c = LF")
      case True
      then show ?thesis using F1 2(2) by (simp add: lf_pieces_not_Nil chop_cr_def)
    next
      case False
      obtain p ps where pp: "lf_pieces cs = p # ps"
        using lf_pieces_not_Nil [of cs] by (cases "lf_pieces cs") auto
      have ih: "split_lines cs = map chop_cr (butlast (p # ps)) @ [last (p # ps)]"
        using 2(3) F1 False pp by simp
      show ?thesis
      proof (cases "ps = []")
        case True
        then show ?thesis using F1 False pp ih by simp
      next
        case N: False
        have "chop_cr (c # p) = c # chop_cr p"
        proof (cases "p = []")
          case True
          then have "cs \<noteq> [] \<and> hd cs = LF" using pp N lf_pieces_hd_Nil by blast
          then have "c \<noteq> CR" using F1 by blast
          then show ?thesis using True by (simp add: chop_cr_def)
        next
          case False
          then show ?thesis by (rule chop_cr_Cons)
        qed
        then show ?thesis using F1 False pp ih N by simp
      qed
    qed
  qed
qed

lemma trim_chop_cr: "trim (chop_cr p) = trim p"
proof (cases "p \<noteq> [] \<and> last p = CR")
  case True
  then have "p = butlast p @ [CR]" by (metis append_butlast_last_id)
  moreover have "is_white CR" by (simp add: is_white_def)
  ultimately have "trim p = trim (butlast p)" by (metis trim_snoc_white)
  then show ?thesis using True by (simp add: chop_cr_def)
next
  case False
  then show ?thesis by (auto simp: chop_cr_def)
qed

lemma map_trim_split_lines: "map trim (split_lines s) = map trim (lf_pieces s)"
proof -
  have "map trim (lf_pieces s) = map trim (butlast (lf_pieces s) @ [last (lf_pieces s)])"
    by (simp add: lf_pieces_not_Nil)
  also have "\<dots> = map trim (split_lines s)"
    by (simp add: split_lines_lf_pieces trim_chop_cr comp_def)
  finally show ?thesis by simp
qed

lemma parse_trim: "parseTwoFieldCsvLine (trim l) = parseTwoFieldCsvLine l"
  by (simp add: parseTwoFieldCsvLine_def trim_idem)

lemma header_trim: "trim (toLowerCase (trim l)) = trim (toLowerCase l)"
  by (simp add: trim_toLowerCase trim_idem)

lemma decode_lines_map_trim: "decode_lines (map trim ls) = decode_lines ls"
proof -
  let ?P = "\<lambda>line. trim line \<noteq> []"
  have f: "filter ?P (map trim ls) = map trim (filter ?P ls)"
    by (simp add: filter_map comp_def trim_idem)
  have m: "\<And>xs. List.map_filter parseTwoFieldCsvLine (map trim xs) = List.map_filter parseTwoFieldCsvLine xs"
    by (simp add: List.map_filter_def filter_map comp_def parse_trim)
  show ?thesis
  proof (cases "filter ?P ls")
    case Nil
    then show ?thesis by (simp add: decode_lines_def f)
  next
    case (Cons a as)
    then show ?thesis
      using m [of "a # as", simplified] by (simp add: decode_lines_def Let_def f header_trim m)
  qed
qed

lemma decode_lines_cong: "map trim ls = map trim ls' \<Longrightarrow> decode_lines ls = decode_lines ls'"
  by (metis decode_lines_map_trim)

lemma csvToWords_lf_pieces: "csvToWords s = decode_lines (lf_pieces s)"
  by (simp add: csvToWords_decode_lines decode_lines_cong [OF map_trim_split_lines])

section \<open>Line endings and blank lines\<close>

lemma lf_pieces_append_LF: "lf_pieces (a @ LF # b) = lf_pieces a @ lf_pieces b"
proof (induction a)
  case Nil
  show ?case by simp
next
  case (Cons c a)
  obtain p ps where "lf_pieces a = p # ps"
    using lf_pieces_not_Nil [of a] by (cases "lf_pieces a") auto
  then show ?case using Cons by simp
qed

lemma lf_pieces_join_LF: "ls \<noteq> [] \<Longrightarrow> lf_pieces (join [LF] ls) = concat (map lf_pieces ls)"
proof (induction "[LF]" ls rule: join.induct)
  case 1
  then show ?case by simp
next
  case (2 x)
  show ?case by simp
next
  case (3 x y ys)
  then show ?case by (simp add: lf_pieces_append_LF)
qed

lemma lf_pieces_snoc:
  "c \<noteq> LF \<Longrightarrow> lf_pieces (x @ [c]) = butlast (lf_pieces x) @ [last (lf_pieces x) @ [c]]"
proof (induction x)
  case Nil
  then show ?case by simp
next
  case (Cons d x)
  obtain p ps where pp: "lf_pieces x = p # ps"
    using lf_pieces_not_Nil [of x] by (cases "lf_pieces x") auto
  show ?case using Cons pp by (cases "ps = []") (auto simp: lf_pieces_not_Nil)
qed

lemma map_trim_lf_pieces_CR: "map trim (lf_pieces (x @ [CR])) = map trim (lf_pieces x)"
proof -
  have w: "is_white CR" by (simp add: is_white_def)
  have "map trim (lf_pieces x) = map trim (butlast (lf_pieces x) @ [last (lf_pieces x)])"
    by (simp add: lf_pieces_not_Nil)
  then show ?thesis by (simp add: lf_pieces_snoc trim_snoc_white [OF w])
qed

lemma map_trim_join_CRLF:
  "map trim (lf_pieces (join [CR, LF] ls)) = map trim (lf_pieces (join [LF] ls))"
proof (induction ls rule: induct_list012)
  case 1
  show ?case by simp
next
  case (2 x)
  show ?case by simp
next
  case (3 x y ys)
  have "join [CR, LF] (x # y # ys) = (x @ [CR]) @ LF # join [CR, LF] (y # ys)" by simp
  then have "lf_pieces (join [CR, LF] (x # y # ys)) =
      lf_pieces (x @ [CR]) @ lf_pieces (join [CR, LF] (y # ys))"
    by (simp only: lf_pieces_append_LF)
  moreover have "lf_pieces (join [LF] (x # y # ys)) = lf_pieces x @ lf_pieces (join [LF] (y # ys))"
    by (simp add: lf_pieces_append_LF)
  ultimately show ?case using 3(2) by (simp add: map_trim_lf_pieces_CR)
qed

text \<open>
  Claim C7. Whatever the lines of a CSV content, decoding them joined with CR LF gives the
  same records as decoding them joined with LF.
\<close>
theorem crlf_decodes_as_lf: "csvToWords (join [CR, LF] ls) = csvToWords (join [LF] ls)"
  unfolding csvToWords_lf_pieces by (rule decode_lines_cong) (rule map_trim_join_CRLF)

lemma set_lf_pieces: "p \<in> set (lf_pieces s) \<Longrightarrow> set p \<subseteq> set s"
proof (induction s arbitrary: p)
  case Nil
  then show ?case by simp
next
  case (Cons c s)
  obtain q qs where qq: "lf_pieces s = q # qs"
    using lf_pieces_not_Nil [of s] by (cases "lf_pieces s") auto
  have "set q \<subseteq> set s" using Cons.IH [of q] qq by simp
  moreover have "\<And>r. r \<in> set qs \<Longrightarrow> set r \<subseteq> set s" using Cons.IH qq by simp
  ultimately show ?case using Cons.prems qq by (auto split: if_splits)
qed

lemma blank_pieces: "trim l = [] \<Longrightarrow> filter (\<lambda>line. trim line \<noteq> []) (lf_pieces l) = []"
proof -
  assume "trim l = []"
  then have "\<forall>c\<in>set l. is_white c" by (simp add: trim_eq_Nil_iff)
  then have "\<forall>p\<in>set (lf_pieces l). \<forall>c\<in>set p. is_white c" using set_lf_pieces by blast
  then show ?thesis by (simp add: trim_eq_Nil_iff)
qed

lemma filter_pieces_nonblank:
  "filter (\<lambda>line. trim line \<noteq> []) (concat (map lf_pieces ls)) =
   filter (\<lambda>line. trim line \<noteq> []) (concat (map lf_pieces (filter (\<lambda>line. trim line \<noteq> []) ls)))"
  by (induction ls) (simp_all add: blank_pieces)

lemma decode_lines_filter:
  "decode_lines (filter (\<lambda>line. trim line \<noteq> []) ls) = decode_lines ls"
  by (simp add: decode_lines_def)

lemma decode_lines_filter_cong:
  "filter (\<lambda>line. trim line \<noteq> []) ls = filter (\<lambda>line. trim line \<noteq> []) ls' \<Longrightarrow>
   decode_lines ls = decode_lines ls'"
  by (metis decode_lines_filter)

text \<open>
  Claim C6. Decoding a blob with blank lines (empty after trimming) among its lines gives
  the same records as decoding the blob with those lines removed.
\<close>
theorem blank_lines_ignored:
  "csvToWords (join [LF] ls) = csvToWords (join [LF] (filter (\<lambda>l. trim l \<noteq> []) ls))"
proof -
  let ?P = "\<lambda>line. trim line \<noteq> []"
  have pieces: "\<And>xs. filter ?P (lf_pieces (join [LF] xs)) = filter ?P (concat (map lf_pieces xs))"
  proof -
    fix xs :: "string list"
    show "filter ?P (lf_pieces (join [LF] xs)) = filter ?P (concat (map lf_pieces xs))"
      by (cases "xs = []") (simp_all add: lf_pieces_join_LF trim_Nil)
  qed
  have "filter ?P (lf_pieces (join [LF] ls)) = filter ?P (lf_pieces (join [LF] (filter ?P ls)))"
    unfolding pieces by (rule filter_pieces_nonblank)
  then show ?thesis unfolding csvToWords_lf_pieces by (rule decode_lines_filter_cong)
qed

section \<open>The header line\<close>

lemma parse_Some: "trim l \<noteq> [] \<Longrightarrow> parseTwoFieldCsvLine l \<noteq> None"
  by (simp add: parseTwoFieldCsvLine_def Let_def)

lemma map_filter_all_Some:
  "\<forall>x\<in>set xs. f x \<noteq> None \<Longrightarrow> List.map_filter f xs = map (\<lambda>x. the (f x)) xs"
  by (induction xs) (auto simp: List.map_filter_def)

lemma length_map_filter_parse:
  "\<forall>l\<in>set ls. trim l \<noteq> [] \<Longrightarrow> length (List.map_filter parseTwoFieldCsvLine ls) = length ls"
  by (simp add: map_filter_all_Some parse_Some)

lemma csvToWords_cases:
  "csvToWords s =
     (case filter (\<lambda>l. trim l \<noteq> []) (split_lines s) of
        [] \<Rightarrow> []
      | l # ls \<Rightarrow>
          if toLowerCase (trim l) = ''word,definition''
          then List.map_filter parseTwoFieldCsvLine ls
          else List.map_filter parseTwoFieldCsvLine (l # ls))"
proof (cases "filter (\<lambda>l. trim l \<noteq> []) (split_lines s)")
  case Nil
  then show ?thesis by (simp add: csvToWords_def List.map_filter_def)
next
  case (Cons l ls)
  then show ?thesis by (simp add: csvToWords_def Let_def trim_toLowerCase)
qed

text \<open>
  Claim C5. The decoder discards the first non-blank line exactly when that line, trimmed
  and lowercased, is \<^verbatim>\<open>word,definition\<close>: the records are then those of the lines after
  it, and otherwise those of all non-blank lines. The header followed by the line
  \<^verbatim>\<open>cat,a small feline\<close> decodes to the single record (cat, a small feline), and so does
  that line without the header.
\<close>
theorem header_optional:
  "csvToWords s =
     (case filter (\<lambda>l. trim l \<noteq> []) (split_lines s) of
        [] \<Rightarrow> []
      | l # ls \<Rightarrow>
          if toLowerCase (trim l) = ''word,definition''
          then List.map_filter parseTwoFieldCsvLine ls
          else List.map_filter parseTwoFieldCsvLine (l # ls)) \<and>
   csvToWords (''word,definition'' @ [LF] @ ''cat,a small feline'') =
     [\<lparr>word = ''cat'', definition = ''a small feline''\<rparr>] \<and>
   csvToWords ''cat,a small feline'' = [\<lparr>word = ''cat'', definition = ''a small feline''\<rparr>]"
proof (intro conjI)
  show "csvToWords (''word,definition'' @ [LF] @ ''cat,a small feline'') =
     [\<lparr>word = ''cat'', definition = ''a small feline''\<rparr>]" by code_simp
  show "csvToWords ''cat,a small feline'' = [\<lparr>word = ''cat'', definition = ''a small feline''\<rparr>]"
    by code_simp
qed (rule csvToWords_cases)

text \<open>
  Claim C10. When the first non-blank line of a blob, trimmed and lowercased, is
  \<^verbatim>\<open>word,definition\<close> (a data line \<^verbatim>\<open>WORD,DEFINITION\<close>, say), the decoder removes that
  one line: the records are those of the remaining non-blank lines, one record for each
  of them, so no later line is removed as a header.
\<close>
theorem header_like_first_line_dropped:
  assumes "filter (\<lambda>l. trim l \<noteq> []) (split_lines s) = l # ls"
    and "toLowerCase (trim l) = ''word,definition''"
  shows "csvToWords s = List.map_filter parseTwoFieldCsvLine ls \<and>
         length (csvToWords s) = length ls"
proof -
  have a: "csvToWords s = List.map_filter parseTwoFieldCsvLine ls"
    using assms by (simp add: csvToWords_cases)
  have "set ls \<subseteq> set (filter (\<lambda>l. trim l \<noteq> []) (split_lines s))"
    unfolding assms(1) by auto
  then have "\<forall>l\<in>set ls. trim l \<noteq> []" by auto
  then show ?thesis using a by (simp add: length_map_filter_parse)
qed

theorem header_like_first_line_dropped_witness:
  "filter (\<lambda>l. trim l \<noteq> []) (split_lines (''WORD,DEFINITION'' @ [LF] @ ''word,definition'')) =
     [''WORD,DEFINITION'', ''word,definition''] \<and>
   toLowerCase (trim ''WORD,DEFINITION'') = ''word,definition'' \<and>
   csvToWords (''WORD,DEFINITION'' @ [LF] @ ''word,definition'') =
     [\<lparr>word = ''word'', definition = ''definition''\<rparr>] \<and>
   length (csvToWords (''WORD,DEFINITION'' @ [LF] @ ''word,definition'')) = 1"
proof -
  have h1: "filter (\<lambda>l. trim l \<noteq> []) (split_lines (''WORD,DEFINITION'' @ [LF] @ ''word,definition'')) =
     [''WORD,DEFINITION'', ''word,definition'']" by code_simp
  have h2: "toLowerCase (trim ''WORD,DEFINITION'') = ''word,definition''" by code_simp
  have p: "List.map_filter parseTwoFieldCsvLine [''word,definition''] =
     [\<lparr>word = ''word'', definition = ''definition''\<rparr>]" by code_simp
  show ?thesis using header_like_first_line_dropped [OF h1 h2] h1 h2 p by simp
qed

section \<open>Fields of a decoded record\<close>

lemma not_surrounding_white_trim: "\<not> surrounding_white (trim x)"
  using trim_ends [of x] by (auto simp: surrounding_white_def)

lemma not_surrounding_white_field_text: "\<not> surrounding_white (field_text fs k)"
  by (simp add: field_text_def not_surrounding_white_trim) (simp add: surrounding_white_def)

lemma parse_fields_trimmed:
  "parseTwoFieldCsvLine line = Some e \<Longrightarrow>
   \<not> surrounding_white (word e) \<and> \<not> surrounding_white (definition e)"
  by (auto simp: parseTwoFieldCsvLine_def Let_def not_surrounding_white_field_text
      split: if_splits)

lemma set_map_filter: "set (List.map_filter f xs) = {y. \<exists>x\<in>set xs. f x = Some y}"
  by (induction xs) (auto simp: List.map_filter_def)

lemma csvToWords_from_parse:
  "e \<in> set (csvToWords s) \<Longrightarrow> \<exists>l. parseTwoFieldCsvLine l = Some e"
  by (auto simp: csvToWords_def Let_def set_map_filter split: if_splits)

text \<open>
  Claim C9, as amended. For every input line, no field produced by the line tokenizer has
  leading or trailing whitespace, because each field is trimmed last; consequently no
  field of a decoded record has surrounding whitespace.
\<close>
theorem fields_trimmed:
  "(parseTwoFieldCsvLine line = Some e \<longrightarrow>
      \<not> surrounding_white (word e) \<and> \<not> surrounding_white (definition e)) \<and>
   (e' \<in> set (csvToWords s) \<longrightarrow>
      \<not> surrounding_white (word e') \<and> \<not> surrounding_white (definition e'))"
  using parse_fields_trimmed csvToWords_from_parse by blast

theorem fields_trimmed_witness:
  "parseTwoFieldCsvLine '' cat , a small feline '' =
     Some \<lparr>word = ''cat'', definition = ''a small feline''\<rparr> \<and>
   \<not> surrounding_white ''cat'' \<and> \<not> surrounding_white ''a small feline'' \<and>
   \<lparr>word = ''cat'', definition = ''a small feline''\<rparr> \<in> set (csvToWords '' cat , a small feline '')"
proof -
  let ?e = "\<lparr>word = ''cat'', definition = ''a small feline''\<rparr>"
  have p: "parseTwoFieldCsvLine '' cat , a small feline '' = Some ?e" by code_simp
  have c: "csvToWords '' cat , a small feline '' = [?e]" by code_simp
  have m: "?e \<in> set (csvToWords '' cat , a small feline '')" unfolding c by simp
  show ?thesis
    using fields_trimmed [of "'' cat , a small feline ''" ?e ?e "'' cat , a small feline ''"] p m
    by simp
qed

text \<open>
  The claim C9 as stated fails in its other half: the line of eight double-quotes is
  tokenized to a word that is two consecutive double-quotes, and decoded to a record with
  that word.
\<close>
theorem quote_pair_survives:
  "parseTwoFieldCsvLine (replicate 8 dquote) = Some \<lparr>word = [dquote, dquote], definition = []\<rparr> \<and>
   csvToWords (replicate 8 dquote) = [\<lparr>word = [dquote, dquote], definition = []\<rparr>] \<and>
   quote_pair [dquote, dquote]"
  by code_simp

section \<open>Totality of the decoder\<close>

text \<open>
  Claim C8. The decoder is a total function. A blob with no non-blank line, or with a
  header as its only non-blank line, decodes to the empty sequence; every non-blank line
  is tokenized to a record; a line whose tokenization has a single field gives a record
  with the empty definition; and the number of records is the number of non-blank lines,
  less the header when the first of them is one.
\<close>
theorem decoder_total:
  "(filter (\<lambda>l. trim l \<noteq> []) (split_lines s) = [] \<longrightarrow> csvToWords s = []) \<and>
   (filter (\<lambda>l. trim l \<noteq> []) (split_lines s) = [h] \<and> toLowerCase (trim h) = ''word,definition''
      \<longrightarrow> csvToWords s = []) \<and>
   (trim l \<noteq> [] \<longrightarrow> (\<exists>e. parseTwoFieldCsvLine l = Some e)) \<and>
   (trim l \<noteq> [] \<and> length (scan_loop (trim l) 0 [] [] False) = 1 \<longrightarrow>
      (\<exists>w. parseTwoFieldCsvLine l = Some \<lparr>word = w, definition = []\<rparr>)) \<and>
   length (csvToWords s) =
     (let nb = filter (\<lambda>l. trim l \<noteq> []) (split_lines s)
      in length nb - (if nb \<noteq> [] \<and> toLowerCase (trim (hd nb)) = ''word,definition'' then 1 else 0))"
proof (intro conjI impI)
  assume "filter (\<lambda>l. trim l \<noteq> []) (split_lines s) = []"
  then show "csvToWords s = []" by (simp add: csvToWords_cases)
next
  assume "filter (\<lambda>l. trim l \<noteq> []) (split_lines s) = [h] \<and> toLowerCase (trim h) = ''word,definition''"
  then show "csvToWords s = []" by (simp add: csvToWords_cases List.map_filter_def)
next
  assume "trim l \<noteq> []"
  then show "\<exists>e. parseTwoFieldCsvLine l = Some e" using parse_Some by blast
next
  assume a: "trim l \<noteq> [] \<and> length (scan_loop (trim l) 0 [] [] False) = 1"
  then have "field_text (scan_loop (trim l) 0 [] [] False) 1 = []" by (simp add: field_text_def)
  then show "\<exists>w. parseTwoFieldCsvLine l = Some \<lparr>word = w, definition = []\<rparr>"
    using a by (simp add: parseTwoFieldCsvLine_def Let_def)
next
  let ?nb = "filter (\<lambda>l. trim l \<noteq> []) (split_lines s)"
  have all: "\<forall>l\<in>set ?nb. trim l \<noteq> []" by simp
  show "length (csvToWords s) =
     (let nb = ?nb
      in length nb - (if nb \<noteq> [] \<and> toLowerCase (trim (hd nb)) = ''word,definition'' then 1 else 0))"
  proof (cases ?nb)
    case Nil
    then show ?thesis by (simp add: csvToWords_cases)
  next
    case (Cons a as)
    have all': "\<forall>l\<in>set (a # as). trim l \<noteq> []" using all unfolding Cons .
    then have "\<forall>l\<in>set as. trim l \<noteq> []" by simp
    then have la: "length (List.map_filter parseTwoFieldCsvLine as) = length as"
      by (rule length_map_filter_parse)
    have lb: "length (List.map_filter parseTwoFieldCsvLine (a # as)) = Suc (length as)"
      using length_map_filter_parse [OF all'] by simp
    show ?thesis unfolding csvToWords_cases Cons using la lb by (simp add: Let_def)
  qed
qed

theorem decoder_total_witness:
  "csvToWords [] = [] \<and>
   csvToWords ''word,definition'' = [] \<and>
   parseTwoFieldCsvLine ''cat'' = Some \<lparr>word = ''cat'', definition = []\<rparr> \<and>
   length (csvToWords (''word,definition'' @ [LF] @ ''cat'' @ [LF, LF] @ ''dog,barks'')) = 2"
proof -
  have a: "filter (\<lambda>l. trim l \<noteq> []) (split_lines []) = []" by code_simp
  have b: "filter (\<lambda>l. trim l \<noteq> []) (split_lines ''word,definition'') = [''word,definition''] \<and>
      toLowerCase (trim ''word,definition'') = ''word,definition''" by code_simp
  have c: "trim ''cat'' \<noteq> [] \<and> length (scan_loop (trim ''cat'') 0 [] [] False) = 1" by code_simp
  have d: "parseTwoFieldCsvLine ''cat'' = Some \<lparr>word = ''cat'', definition = []\<rparr>" by code_simp
  have e: "filter (\<lambda>l. trim l \<noteq> []) (split_lines (''word,definition'' @ [LF] @ ''cat'' @ [LF, LF] @ ''dog,barks''))
     = [''word,definition'', ''cat'', ''dog,barks'']" by code_simp
  have t: "toLowerCase (trim ''word,definition'') = ''word,definition''" by code_simp
  have 1: "csvToWords [] = []"
    using decoder_total [where s = "[]"] a by blast
  have 2: "csvToWords ''word,definition'' = []"
    using decoder_total [where s = "''word,definition''" and h = "''word,definition''"] b by blast
  have 3: "length (csvToWords (''word,definition'' @ [LF] @ ''cat'' @ [LF, LF] @ ''dog,barks'')) = 2"
    using decoder_total [where s = "''word,definition'' @ [LF] @ ''cat'' @ [LF, LF] @ ''dog,barks''"] e t
    by (simp add: Let_def)
  show ?thesis using 1 2 3 d by simp
qed

section \<open>The round trip\<close>

lemma unescape_quotes_id: "\<not> quote_pair f \<Longrightarrow> unescape_quotes f = f"
  by (induction f rule: unescape_quotes.induct) auto

lemma trim_not_surrounding: "\<not> surrounding_white f \<Longrightarrow> trim f = f"
  by (cases "f = []") (simp_all add: trim_Nil trim_fixed surrounding_white_def)

lemma tok_plain:
  "c \<noteq> dquote \<Longrightarrow> c \<noteq> comma \<or> inside \<Longrightarrow>
   tokenize_spec inside cur (c # cs) = tokenize_spec inside (cur @ [c]) cs"
  by (cases cs) auto

lemma tok_comma: "tokenize_spec False cur (comma # cs) = cur # tokenize_spec False [] cs"
  by (cases cs) auto

lemma tok_toggle:
  "\<not> inside \<or> cs = [] \<or> hd cs \<noteq> dquote \<Longrightarrow>
   tokenize_spec inside cur (dquote # cs) = tokenize_spec (\<not> inside) cur cs"
  by (cases cs) auto

lemma tok_unquoted:
  "comma \<notin> set f \<Longrightarrow> dquote \<notin> set f \<Longrightarrow>
   tokenize_spec False cur (f @ rest) = tokenize_spec False (cur @ f) rest"
proof (induction f arbitrary: cur)
  case Nil
  show ?case by simp
next
  case (Cons c f)
  have "tokenize_spec False cur ((c # f) @ rest) = tokenize_spec False (cur @ [c]) (f @ rest)"
    using Cons.prems tok_plain [of c False cur "f @ rest"] by (auto simp del: tokenize_spec.simps)
  also have "\<dots> = tokenize_spec False ((cur @ [c]) @ f) rest"
    using Cons.prems by (intro Cons.IH) auto
  finally show ?case by simp
qed

lemma tok_quoted:
  "rest = [] \<or> hd rest \<noteq> dquote \<Longrightarrow>
   tokenize_spec True cur (replace_quotes f @ dquote # rest) = tokenize_spec False (cur @ f) rest"
proof (induction f arbitrary: cur)
  case Nil
  then show ?case by (simp add: tok_toggle del: tokenize_spec.simps)
next
  case (Cons c f)
  show ?case
  proof (cases "c = dquote")
    case True
    have "tokenize_spec True cur (replace_quotes (c # f) @ dquote # rest) =
        tokenize_spec True (cur @ [dquote]) (replace_quotes f @ dquote # rest)"
      using True by simp
    also have "\<dots> = tokenize_spec False ((cur @ [dquote]) @ f) rest"
      using Cons.prems by (rule Cons.IH)
    finally show ?thesis using True by simp
  next
    case False
    have "tokenize_spec True cur (replace_quotes (c # f) @ dquote # rest) =
        tokenize_spec True (cur @ [c]) (replace_quotes f @ dquote # rest)"
      using False tok_plain [of c True cur "replace_quotes f @ dquote # rest"]
      by (simp del: tokenize_spec.simps)
    also have "\<dots> = tokenize_spec False ((cur @ [c]) @ f) rest"
      using Cons.prems by (rule Cons.IH)
    finally show ?thesis by simp
  qed
qed

lemma tok_escaped_field:
  assumes "rest = [] \<or> hd rest \<noteq> dquote"
  shows "tokenize_spec False [] (escapeCsvField (Some f) @ rest) = tokenize_spec False f rest"
proof (cases "comma \<in> set f \<or> dquote \<in> set f \<or> LF \<in> set f \<or> CR \<in> set f")
  case True
  then have e: "escapeCsvField (Some f) @ rest = dquote # (replace_quotes f @ dquote # rest)"
    by (simp add: escapeCsvField_def)
  have "tokenize_spec False [] (dquote # (replace_quotes f @ dquote # rest)) =
      tokenize_spec True [] (replace_quotes f @ dquote # rest)"
    by (simp add: tok_toggle del: tokenize_spec.simps)
  then show ?thesis unfolding e using tok_quoted [OF assms, of "[]" f] by simp
next
  case False
  then have e: "escapeCsvField (Some f) = f"
    by (simp add: escapeCsvField_def replace_quotes_id)
  show ?thesis unfolding e using False tok_unquoted [of f "[]" rest] by simp
qed

lemma tokenize_encoded_line:
  "tokenize_spec False [] (escapeCsvField (Some w) @ [comma] @ escapeCsvField (Some d)) = [w, d]"
proof -
  have "tokenize_spec False [] (escapeCsvField (Some w) @ comma # escapeCsvField (Some d)) =
      tokenize_spec False w (comma # escapeCsvField (Some d))"
    by (rule tok_escaped_field) simp
  also have "\<dots> = w # tokenize_spec False [] (escapeCsvField (Some d) @ [])"
    by (simp add: tok_comma del: tokenize_spec.simps)
  also have "tokenize_spec False [] (escapeCsvField (Some d) @ []) = tokenize_spec False d []"
    by (rule tok_escaped_field) simp
  finally show ?thesis by simp
qed

lemma escaped_ends:
  assumes "f \<noteq> []" and "\<not> surrounding_white f"
  shows "escapeCsvField (Some f) \<noteq> [] \<and> \<not> is_white (hd (escapeCsvField (Some f))) \<and>
         \<not> is_white (last (escapeCsvField (Some f)))"
proof (cases "comma \<in> set f \<or> dquote \<in> set f \<or> LF \<in> set f \<or> CR \<in> set f")
  case True
  then have "escapeCsvField (Some f) = dquote # replace_quotes f @ [dquote]"
    by (simp add: escapeCsvField_def)
  then show ?thesis by (simp add: is_white_def)
next
  case False
  then have "escapeCsvField (Some f) = f" by (simp add: escapeCsvField_def replace_quotes_id)
  then show ?thesis using assms by (simp add: surrounding_white_def)
qed

lemma escaped_Nil: "escapeCsvField (Some []) = []"
  by (simp add: escapeCsvField_def)

lemma trim_encoded_line:
  assumes "\<not> surrounding_white w" and "\<not> surrounding_white d"
  shows "trim (escapeCsvField (Some w) @ [comma] @ escapeCsvField (Some d)) =
         escapeCsvField (Some w) @ [comma] @ escapeCsvField (Some d)"
proof -
  let ?l = "escapeCsvField (Some w) @ [comma] @ escapeCsvField (Some d)"
  have c: "\<not> is_white comma" by (simp add: is_white_def)
  have h: "\<not> is_white (hd ?l)"
  proof (cases "w = []")
    case True
    then show ?thesis using c by (simp add: escaped_Nil)
  next
    case False
    then show ?thesis using escaped_ends [OF False assms(1)] by simp
  qed
  have l: "\<not> is_white (last ?l)"
  proof (cases "d = []")
    case True
    then show ?thesis using c by (simp add: escaped_Nil)
  next
    case False
    then show ?thesis using escaped_ends [OF False assms(2)] by simp
  qed
  show ?thesis using h l by (intro trim_fixed) simp_all
qed

lemma parse_encoded_line:
  assumes "plain_field w" and "plain_field d"
  shows "parseTwoFieldCsvLine (escapeCsvField (Some w) @ [comma] @ escapeCsvField (Some d)) =
         Some \<lparr>word = w, definition = d\<rparr>"
proof -
  let ?l = "escapeCsvField (Some w) @ [comma] @ escapeCsvField (Some d)"
  have t: "trim ?l = ?l" using assms by (intro trim_encoded_line) (simp_all add: plain_field_def)
  have s: "scan_loop ?l 0 [] [] False = [w, d]"
    by (simp only: scan_loop_tokenize drop_0 append_Nil tokenize_encoded_line)
  have w: "field_text [w, d] 0 = w"
    using assms by (simp add: field_text_def unescape_quotes_id trim_not_surrounding plain_field_def)
  have d: "field_text [w, d] 1 = d"
    using assms by (simp add: field_text_def unescape_quotes_id trim_not_surrounding plain_field_def)
  show ?thesis unfolding parseTwoFieldCsvLine_def t Let_def s w d by simp
qed

lemma set_replace_quotes: "set (replace_quotes f) = set f"
  by (induction f) auto

lemma LF_escaped: "LF \<notin> set f \<Longrightarrow> LF \<notin> set (escapeCsvField (Some f))"
  by (simp add: escapeCsvField_def Let_def set_replace_quotes)

lemma lf_pieces_no_LF: "LF \<notin> set s \<Longrightarrow> lf_pieces s = [s]"
  by (induction s) auto

lemma lf_pieces_join_no_LF:
  "ls \<noteq> [] \<Longrightarrow> \<forall>l\<in>set ls. LF \<notin> set l \<Longrightarrow> lf_pieces (join [LF] ls) = ls"
proof -
  assume n: "ls \<noteq> []" and f: "\<forall>l\<in>set ls. LF \<notin> set l"
  have "concat (map lf_pieces ls) = ls" using f by (induction ls) (simp_all add: lf_pieces_no_LF)
  then show ?thesis using n by (simp add: lf_pieces_join_LF)
qed

lemma header_line:
  "LF \<notin> set ''word,definition'' \<and> trim ''word,definition'' \<noteq> [] \<and>
   trim (toLowerCase ''word,definition'') = ''word,definition''"
  by code_simp

lemma decode_lines_header:
  assumes "\<forall>l\<in>set ls. trim l \<noteq> []"
  shows "decode_lines (''word,definition'' # ls) = List.map_filter parseTwoFieldCsvLine ls"
proof -
  have f: "filter (\<lambda>line. trim line \<noteq> []) ls = ls" using assms by (simp add: filter_id_conv)
  show ?thesis unfolding decode_lines_def using header_line by (simp add: f Let_def)
qed

lemma map_filter_Some:
  "\<forall>x\<in>set xs. f (g x) = Some x \<Longrightarrow> List.map_filter f (map g xs) = xs"
  by (induction xs) (simp_all add: List.map_filter_def)

text \<open>
  Where the code does invert its own encoding: on records whose fields are plain in the
  sense above. This bounds the defect shown below; it is no statement of what the round
  trip ought to cover.
\<close>

lemma round_trip_plain_fields:
  assumes "\<forall>e\<in>set rs. plain_field (word e) \<and> plain_field (definition e)"
  shows "csvToWords (wordsToCsv rs) = rs"
proof -
  let ?enc = "\<lambda>entry. escapeCsvField (Some (word entry)) @ [comma] @ escapeCsvField (Some (definition entry))"
  have nolf: "\<forall>l\<in>set (''word,definition'' # map ?enc rs). LF \<notin> set l"
  proof
    fix l assume "l \<in> set (''word,definition'' # map ?enc rs)"
    then consider "l = ''word,definition''" | e where "e \<in> set rs" "l = ?enc e" by auto
    then show "LF \<notin> set l"
    proof cases
      case 1
      then show ?thesis using header_line by simp
    next
      case 2
      then have "LF \<notin> set (word e)" "LF \<notin> set (definition e)"
        using assms by (auto simp: plain_field_def)
      then have "LF \<notin> set (escapeCsvField (Some (word e)))"
        and "LF \<notin> set (escapeCsvField (Some (definition e)))" by (simp_all add: LF_escaped)
      then show ?thesis using 2 by simp
    qed
  qed
  have pieces: "lf_pieces (wordsToCsv rs) = ''word,definition'' # map ?enc rs"
    unfolding wordsToCsv_def Let_def using nolf by (intro lf_pieces_join_no_LF) simp_all
  have parse: "\<forall>e\<in>set rs. parseTwoFieldCsvLine (?enc e) = Some e"
  proof
    fix e assume "e \<in> set rs"
    then have "plain_field (word e)" "plain_field (definition e)" using assms by auto
    then have "parseTwoFieldCsvLine (?enc e) = Some \<lparr>word = word e, definition = definition e\<rparr>"
      by (rule parse_encoded_line)
    then show "parseTwoFieldCsvLine (?enc e) = Some e" by simp
  qed
  have nonblank: "\<forall>l\<in>set (map ?enc rs). trim l \<noteq> []"
  proof
    fix l assume "l \<in> set (map ?enc rs)"
    then obtain e where e: "e \<in> set rs" "l = ?enc e" by auto
    then have "parseTwoFieldCsvLine l \<noteq> None" using parse by simp
    then show "trim l \<noteq> []" by (auto simp: parseTwoFieldCsvLine_def Let_def split: if_splits)
  qed
  have "csvToWords (wordsToCsv rs) = List.map_filter parseTwoFieldCsvLine (map ?enc rs)"
    unfolding csvToWords_lf_pieces pieces using nonblank by (rule decode_lines_header)
  also have "\<dots> = rs" using parse by (rule map_filter_Some)
  finally show ?thesis .
qed

lemma round_trip_plain_fields_example:
  "plain_field ''a,b'' \<and> plain_field (''he said '' @ [dquote] @ ''hi'' @ [dquote]) \<and>
   plain_field [] \<and> plain_field [CHR ''x'', CR, CHR ''y''] \<and>
   csvToWords (wordsToCsv
     [\<lparr>word = ''a,b'', definition = ''he said '' @ [dquote] @ ''hi'' @ [dquote]\<rparr>,
      \<lparr>word = [], definition = [CHR ''x'', CR, CHR ''y'']\<rparr>]) =
     [\<lparr>word = ''a,b'', definition = ''he said '' @ [dquote] @ ''hi'' @ [dquote]\<rparr>,
      \<lparr>word = [], definition = [CHR ''x'', CR, CHR ''y'']\<rparr>]"
proof -
  have p: "plain_field ''a,b'' \<and> plain_field (''he said '' @ [dquote] @ ''hi'' @ [dquote]) \<and>
      plain_field [] \<and> plain_field [CHR ''x'', CR, CHR ''y'']"
    by code_simp
  then have h: "\<forall>e\<in>set [\<lparr>word = ''a,b'', definition = ''he said '' @ [dquote] @ ''hi'' @ [dquote]\<rparr>,
      \<lparr>word = [], definition = [CHR ''x'', CR, CHR ''y'']\<rparr>].
      plain_field (word e) \<and> plain_field (definition e)" by simp
  show ?thesis using round_trip_plain_fields [OF h] p by blast
qed

text \<open>
  Claim C1. Decoding the encoding of a sequence of records should yield the sequence
  itself, for fields of arbitrary text, newlines and double-quotes included. The code does
  not: a word with a line feed, which the encoder wraps in double-quotes, is encoded on
  two lines and comes back as two records, because the blob is split into lines before
  the quote-aware scan; and a word of two double-quotes, encoded as six, comes back as one
  double-quote, because the field is unescaped a second time after the scan.
\<close>
theorem round_trip_broken:
  "wordsToCsv [\<lparr>word = [CHR ''a'', LF, CHR ''b''], definition = ''c''\<rparr>] =
     ''word,definition'' @ [LF, dquote, CHR ''a'', LF, CHR ''b'', dquote] @ '',c'' \<and>
   csvToWords (wordsToCsv [\<lparr>word = [CHR ''a'', LF, CHR ''b''], definition = ''c''\<rparr>]) =
     [\<lparr>word = ''a'', definition = []\<rparr>, \<lparr>word = ''b,c'', definition = []\<rparr>] \<and>
   wordsToCsv [\<lparr>word = [dquote, dquote], definition = ''c''\<rparr>] =
     ''word,definition'' @ [LF] @ replicate 6 dquote @ '',c'' \<and>
   csvToWords (wordsToCsv [\<lparr>word = [dquote, dquote], definition = ''c''\<rparr>]) =
     [\<lparr>word = [dquote], definition = ''c''\<rparr>]"
  by code_simp

end
